theory Spec2Isabelle
  imports Main "HOL-Library.Word"
begin

unbundle bit_operations_syntax

section \<open>Data model\<close>

text \<open>
  The header \<^verbatim>\<open>sol/string.h\<close> works on raw addresses. A byte is an 8-bit word and
  the memory is a function from addresses to bytes. Pointer arithmetic is arithmetic on
  the address word. The null pointer is the address 0.

  A C \<^verbatim>\<open>int\<close> byte count or loop index is modelled as an \<open>int\<close>: the loops only
  count between 0 and the count they are given, so no index leaves the range of the
  machine type.
\<close>

text \<open>
  Modelled from the spec: the widths of \<^verbatim>\<open>uint8_t\<close>, \<^verbatim>\<open>uint64_t\<close> and
  \<^verbatim>\<open>size_t\<close>. The header \<^verbatim>\<open>sol/types.h\<close> that declares them is not among the
  sources. The spec fixes the word size: the cursor is a 64-bit unsigned integer,
  narrower pointers are excluded, and the product \<^verbatim>\<open>nitems * size\<close> is an unsigned
  64-bit multiplication. So an address and a \<^verbatim>\<open>size_t\<close> are 64-bit unsigned words.
\<close>

type_synonym u8 = "8 word"
type_synonym u64 = "64 word"
type_synonym mem = "u64 \<Rightarrow> u8"

definition NULL :: u64 where
  "NULL = 0"

section \<open>Byte primitives\<close>

text \<open>
  \<^verbatim>\<open>sol_memcpy\<close>: after the null checks, the loop
  \<^verbatim>\<open>for (int i = 0; i < len; i++) dst[i] = src[i]\<close>. Each iteration reads the
  byte from the memory as the iterations before have left it.
\<close>

function memcpy_loop :: "mem \<Rightarrow> u64 \<Rightarrow> u64 \<Rightarrow> int \<Rightarrow> int \<Rightarrow> mem" where
  "memcpy_loop m dst src i len =
     (if i < len
      then memcpy_loop (m(dst + word_of_int i := m (src + word_of_int i))) dst src (i + 1) len
      else m)"
  by pat_completeness auto
termination
  by (relation "measure (\<lambda>(m, dst, src, i, len). nat (len - i))") auto

declare memcpy_loop.simps [simp del]

definition sol_memcpy :: "mem \<Rightarrow> u64 \<Rightarrow> u64 \<Rightarrow> int \<Rightarrow> mem" where
  "sol_memcpy m dst src len =
     (if dst = 0 \<or> src = 0 then m else memcpy_loop m dst src 0 len)"

text \<open>
  \<^verbatim>\<open>sol_memmove\<close>. The loop \<^verbatim>\<open>for (int i = len - 1; i >= 0; i--) dest[i] = source[i]\<close>
  follows the \<^verbatim>\<open>if (dest < source) sol_memcpy(dst, src, len);\<close> statement
  without an \<^verbatim>\<open>else\<close> and without a \<^verbatim>\<open>return\<close>, so it runs on every
  path that passes the first check, also after the forward copy. Pointers are compared as
  unsigned addresses.
\<close>

function memmove_loop :: "mem \<Rightarrow> u64 \<Rightarrow> u64 \<Rightarrow> int \<Rightarrow> mem" where
  "memmove_loop m dest source i =
     (if i \<ge> 0
      then memmove_loop (m(dest + word_of_int i := m (source + word_of_int i))) dest source (i - 1)
      else m)"
  by pat_completeness auto
termination
  by (relation "measure (\<lambda>(m, dest, source, i). nat (i + 1))") auto

declare memmove_loop.simps [simp del]

definition sol_memmove :: "mem \<Rightarrow> u64 \<Rightarrow> u64 \<Rightarrow> int \<Rightarrow> mem" where
  "sol_memmove m dst src len =
     (let dest = dst; source = src
      in if dest = 0 \<or> source = 0 \<or> source = dest then m
         else
           let m = (if dest < source then sol_memcpy m dst src len else m)
           in memmove_loop m dest source (len - 1))"

text \<open>
  \<^verbatim>\<open>sol_memcmp\<close>. \<^verbatim>\<open>diff\<close> is a \<^verbatim>\<open>uint8_t\<close>: the difference of the two
  bytes is taken modulo 256, which is subtraction on 8-bit words. The function returns it
  as an \<^verbatim>\<open>int\<close>, that is its unsigned value.
\<close>

function memcmp_loop :: "mem \<Rightarrow> u64 \<Rightarrow> u64 \<Rightarrow> int \<Rightarrow> int \<Rightarrow> int" where
  "memcmp_loop m s1 s2 i n =
     (if i < n
      then let diff = m (s1 + word_of_int i) - m (s2 + word_of_int i)
           in if diff \<noteq> 0 then uint diff else memcmp_loop m s1 s2 (i + 1) n
      else 0)"
  by pat_completeness auto
termination
  by (relation "measure (\<lambda>(m, s1, s2, i, n). nat (n - i))") auto

declare memcmp_loop.simps [simp del]

definition sol_memcmp :: "mem \<Rightarrow> u64 \<Rightarrow> u64 \<Rightarrow> int \<Rightarrow> int" where
  "sol_memcmp m s1 s2 n =
     (if s1 = 0 \<or> s2 = 0 then 1 else memcmp_loop m s1 s2 0 n)"

text \<open>
  \<^verbatim>\<open>sol_strlen\<close>. The \<^verbatim>\<open>while (1)\<close> loop has no bound: on a memory without a
  zero byte it never returns. The loop is therefore a partial function into \<open>option\<close>,
  where \<open>None\<close> stands for a run that does not return. \<open>ref\<close> is the pointer passed
  in, \<open>s\<close> the pointer the loop advances by four.
\<close>

partial_function (option) strlen_loop :: "mem \<Rightarrow> u64 \<Rightarrow> u64 \<Rightarrow> u64 option" where
  "strlen_loop m ref s =
     (if m s = 0 then Some (s - ref + 0)
      else if m (s + 1) = 0 then Some (s - ref + 1)
      else if m (s + 2) = 0 then Some (s - ref + 2)
      else if m (s + 3) = 0 then Some (s - ref + 3)
      else strlen_loop m ref (s + 4))"

declare strlen_loop.simps [code]

definition sol_strlen :: "mem \<Rightarrow> u64 \<Rightarrow> u64 option" where
  "sol_strlen m s =
     (let ref = s
      in if s = 0 then Some 0 else strlen_loop m ref s)"

section \<open>Bump allocator\<close>

definition HEAP_START_ADDRESS :: u64 where
  "HEAP_START_ADDRESS = 0x300000000"

definition HEAP_LENGTH :: u64 where
  "HEAP_LENGTH = 32 * 1024"

text \<open>
  Modelled from the spec: \<^verbatim>\<open>sizeof(uint8_t*)\<close>, the size of a pointer, which the
  missing header \<^verbatim>\<open>sol/types.h\<close> and the target fix. The spec gives the bound of
  the last check as \<open>HEAP_START + sizeof(word)\<close> with a 64-bit word, and as
  \<open>HEAP_START + 8\<close> in its scenarios.
\<close>

definition sizeof_uint8_ptr :: u64 where
  "sizeof_uint8_ptr = 8"

text \<open>
  Lines 136 to 144 of \<^verbatim>\<open>sol_calloc\<close>: the alignment computed from
  \<^verbatim>\<open>size\<close> (here \<open>sz\<close>, since \<open>size\<close> is a constant of HOL) by decrementing, or-ing the value with itself shifted right by 1, 2, 4, 8, 16 and 32, and
  incrementing. Every step is on a 64-bit word, so the decrement of 0 and the final
  increment wrap around.
\<close>

definition calloc_align :: "u64 \<Rightarrow> u64" where
  "calloc_align sz =
     (let align = sz;
          align = align - 1;
          align = align OR drop_bit 1 align;
          align = align OR drop_bit 2 align;
          align = align OR drop_bit 4 align;
          align = align OR drop_bit 8 align;
          align = align OR drop_bit 16 align;
          align = align OR drop_bit 32 align;
          align = align + 1
      in align)"

text \<open>
  \<^verbatim>\<open>sol_calloc\<close>. The only state of the allocator is the 64-bit word stored at
  \<open>HEAP_START_ADDRESS\<close> (\<^verbatim>\<open>*pos_ptr\<close>); the function takes its value before the
  call and returns the pointer handed to the caller together with the value of that word
  after the call. The word is written only by the last statement but one of the source,
  \<^verbatim>\<open>*pos_ptr = pos\<close>; both early returns leave it as it was.
\<close>

definition sol_calloc :: "u64 \<Rightarrow> u64 \<Rightarrow> u64 \<Rightarrow> u64 \<times> u64" where
  "sol_calloc pos_word nitems sz =
     (let pos = pos_word;
          pos = (if pos = 0 then HEAP_START_ADDRESS + HEAP_LENGTH else pos);
          bytes = nitems * sz
      in if sz = 0 \<or>
            \<not> (nitems = 0 \<or> sz = 0) \<and> \<not> (nitems = bytes div sz)
         then (NULL, pos_word)
         else
           let pos = (if pos < bytes then 0 else pos - bytes);
               align = calloc_align sz;
               pos = pos AND NOT (align - 1)
           in if pos < HEAP_START_ADDRESS + sizeof_uint8_ptr
              then (NULL, pos_word)
              else (pos, pos))"

text \<open>
  A program calls the allocator several times; each call is a pair \<open>(nitems, sz)\<close>.
  \<open>calloc_run\<close> threads the cursor word through the calls and collects, for every call,
  the arguments together with the pointer returned. \<open>calloc_final\<close> is the cursor word
  after the calls.
\<close>

fun calloc_run :: "u64 \<Rightarrow> (u64 \<times> u64) list \<Rightarrow> (u64 \<times> u64 \<times> u64) list" where
  "calloc_run pos_word [] = []"
| "calloc_run pos_word ((nitems, sz) # calls) =
     (case sol_calloc pos_word nitems sz of
        (p, pos_word') \<Rightarrow> (p, nitems, sz) # calloc_run pos_word' calls)"

fun calloc_final :: "u64 \<Rightarrow> (u64 \<times> u64) list \<Rightarrow> u64" where
  "calloc_final pos_word [] = pos_word"
| "calloc_final pos_word ((nitems, sz) # calls) =
     calloc_final (snd (sol_calloc pos_word nitems sz)) calls"

section \<open>Notions used to state the properties\<close>

text \<open>
  None of the definitions of this section is code of the header; they are the vocabulary
  of the properties proved below.
\<close>

text \<open>Writing a list of bytes into the memory and reading one back, to state examples.\<close>

fun poke_bytes :: "mem \<Rightarrow> u64 \<Rightarrow> u8 list \<Rightarrow> mem" where
  "poke_bytes m a [] = m"
| "poke_bytes m a (b # bs) = poke_bytes (m(a := b)) (a + 1) bs"

definition peek_bytes :: "mem \<Rightarrow> u64 \<Rightarrow> nat \<Rightarrow> u8 list" where
  "peek_bytes m a n = map (\<lambda>i. m (a + of_nat i)) [0..<n]"

definition bytes_of :: "string \<Rightarrow> u8 list" where
  "bytes_of s = map of_char s"

text \<open>The memory holds the byte sequence \<open>X\<close> from address \<open>s\<close> on.\<close>

definition holds_bytes :: "mem \<Rightarrow> u64 \<Rightarrow> u8 list \<Rightarrow> bool" where
  "holds_bytes m s X \<longleftrightarrow> peek_bytes m s (length X) = X"

text \<open>The number of bytes of \<open>X\<close> before its first zero byte.\<close>

definition first_zero :: "u8 list \<Rightarrow> nat" where
  "first_zero X = length (takeWhile (\<lambda>b. b \<noteq> 0) X)"

text \<open>
  The cursor a call of \<^verbatim>\<open>sol_calloc\<close> works with: the stored word, or the end of the
  heap when the stored word is 0 (line 117 to 120 of the source).
\<close>

definition cursor :: "u64 \<Rightarrow> u64" where
  "cursor pos_word = (if pos_word = 0 then HEAP_START_ADDRESS + HEAP_LENGTH else pos_word)"

text \<open>The invariant of the stored cursor word.\<close>

definition cursor_ok :: "u64 \<Rightarrow> bool" where
  "cursor_ok w \<longleftrightarrow>
     (w \<noteq> 0 \<longrightarrow> HEAP_START_ADDRESS + 8 \<le> w \<and> w \<le> HEAP_START_ADDRESS + HEAP_LENGTH)"

text \<open>\<open>a\<close> is the smallest power of two that is at least \<open>n\<close>.\<close>

definition is_next_pow2 :: "nat \<Rightarrow> nat \<Rightarrow> bool" where
  "is_next_pow2 a n \<longleftrightarrow> (\<exists>k. a = 2 ^ k \<and> n \<le> 2 ^ k \<and> (\<forall>j. n \<le> 2 ^ j \<longrightarrow> k \<le> j))"

text \<open>The address \<open>p\<close> is a multiple of the smallest power of two that is at least \<open>sz\<close>.\<close>

definition aligned_for :: "u64 \<Rightarrow> u64 \<Rightarrow> bool" where
  "aligned_for p sz \<longleftrightarrow> (\<exists>a. is_next_pow2 a (unat sz) \<and> a dvd unat p)"

text \<open>
  The bytes of an allocation \<open>(p, nitems, sz)\<close>: the addresses from \<open>p\<close> up to, and
  without, \<open>p + nitems * sz\<close>, as natural numbers and with the product not wrapped.
\<close>

definition alloc_range :: "u64 \<times> u64 \<times> u64 \<Rightarrow> nat set" where
  "alloc_range a = (case a of (p, nitems, sz) \<Rightarrow> {unat p ..< unat p + unat nitems * unat sz})"

text \<open>The calls of a run that returned a pointer other than null.\<close>

definition successful :: "(u64 \<times> u64 \<times> u64) list \<Rightarrow> (u64 \<times> u64 \<times> u64) list" where
  "successful as = filter (\<lambda>a. fst a \<noteq> NULL) as"

section \<open>The alignment computed by the allocator\<close>

lemma sizeof_uint8_ptr_eq [simp]: "sizeof_uint8_ptr = 8"
  by (simp add: sizeof_uint8_ptr_def)

lemma heap_consts:
  "HEAP_START_ADDRESS + HEAP_LENGTH = 0x300008000"
  "HEAP_START_ADDRESS + 8 = 0x300000008"
  by (simp_all add: HEAP_START_ADDRESS_def HEAP_LENGTH_def)

lemma smear_step:
  fixes x y :: u64
  assumes "\<And>n. bit y n \<longleftrightarrow> (\<exists>j<p. bit x (n + j))"
  shows "bit (y OR drop_bit p y) n \<longleftrightarrow> (\<exists>j<2 * p. bit x (n + j))"
proof -
  have "bit (y OR drop_bit p y) n \<longleftrightarrow> bit y n \<or> bit y (p + n)"
    by (simp add: bit_or_iff bit_drop_bit_eq)
  also have "\<dots> \<longleftrightarrow> (\<exists>j<p. bit x (n + j)) \<or> (\<exists>j<p. bit x (n + (p + j)))"
    by (simp add: assms ac_simps)
  also have "\<dots> \<longleftrightarrow> (\<exists>j<2 * p. bit x (n + j))"
  proof
    assume "(\<exists>j<p. bit x (n + j)) \<or> (\<exists>j<p. bit x (n + (p + j)))"
    then show "\<exists>j<2 * p. bit x (n + j)"
    proof
      assume "\<exists>j<p. bit x (n + j)"
      then obtain j where "j < p" "bit x (n + j)" by blast
      then have "j < 2 * p \<and> bit x (n + j)" by simp
      then show ?thesis by blast
    next
      assume "\<exists>j<p. bit x (n + (p + j))"
      then obtain j where "j < p" "bit x (n + (p + j))" by blast
      then have "p + j < 2 * p \<and> bit x (n + (p + j))" by simp
      then show ?thesis by blast
    qed
  next
    assume "\<exists>j<2 * p. bit x (n + j)"
    then obtain j where j: "j < 2 * p" "bit x (n + j)" by blast
    show "(\<exists>j<p. bit x (n + j)) \<or> (\<exists>j<p. bit x (n + (p + j)))"
    proof (cases "j < p")
      case True
      with j show ?thesis by blast
    next
      case False
      with j have "j - p < p" "bit x (n + (p + (j - p)))" by simp_all
      then show ?thesis by blast
    qed
  qed
  finally show ?thesis .
qed

lemma bit_calloc_align_window:
  "bit (calloc_align sz - 1) n \<longleftrightarrow> (\<exists>j<64. bit (sz - 1) (n + j))"
proof -
  define x where "x = sz - 1"
  define a1 where "a1 = x OR drop_bit 1 x"
  define a2 where "a2 = a1 OR drop_bit 2 a1"
  define a3 where "a3 = a2 OR drop_bit 4 a2"
  define a4 where "a4 = a3 OR drop_bit 8 a3"
  define a5 where "a5 = a4 OR drop_bit 16 a4"
  define a6 where "a6 = a5 OR drop_bit 32 a5"
  have b0: "bit x n \<longleftrightarrow> (\<exists>j<1. bit x (n + j))" for n by simp
  have b1: "bit a1 n \<longleftrightarrow> (\<exists>j<2. bit x (n + j))" for n
    unfolding a1_def using smear_step [of x 1 x n, OF b0] by simp
  have b2: "bit a2 n \<longleftrightarrow> (\<exists>j<4. bit x (n + j))" for n
    unfolding a2_def using smear_step [of a1 2 x n, OF b1] by simp
  have b3: "bit a3 n \<longleftrightarrow> (\<exists>j<8. bit x (n + j))" for n
    unfolding a3_def using smear_step [of a2 4 x n, OF b2] by simp
  have b4: "bit a4 n \<longleftrightarrow> (\<exists>j<16. bit x (n + j))" for n
    unfolding a4_def using smear_step [of a3 8 x n, OF b3] by simp
  have b5: "bit a5 n \<longleftrightarrow> (\<exists>j<32. bit x (n + j))" for n
    unfolding a5_def using smear_step [of a4 16 x n, OF b4] by simp
  have b6: "bit a6 n \<longleftrightarrow> (\<exists>j<64. bit x (n + j))" for n
    unfolding a6_def using smear_step [of a5 32 x n, OF b5] by simp
  have "calloc_align sz - 1 = a6"
    by (simp add: calloc_align_def Let_def a1_def a2_def a3_def a4_def a5_def a6_def x_def)
  then show ?thesis by (simp add: b6 x_def)
qed

lemma bit_calloc_align_above:
  "bit (calloc_align sz - 1) n \<longleftrightarrow> (\<exists>m\<ge>n. bit (sz - 1) m)"
proof
  assume "bit (calloc_align sz - 1) n"
  then obtain j where "bit (sz - 1) (n + j)" by (auto simp: bit_calloc_align_window)
  then show "\<exists>m\<ge>n. bit (sz - 1) m" by (intro exI [of _ "n + j"]) simp
next
  assume "\<exists>m\<ge>n. bit (sz - 1) m"
  then obtain m where m: "n \<le> m" "bit (sz - 1) m" by blast
  then have "m < 64" using bit_imp_le_length [of "sz - 1" m] by simp
  with m have "m - n < 64" "bit (sz - 1) (n + (m - n))" by simp_all
  then show "bit (calloc_align sz - 1) n" unfolding bit_calloc_align_window by blast
qed

lemma bit_nat_imp_ge: "bit (m::nat) n \<Longrightarrow> 2 ^ n \<le> m"
  by (rule ccontr) (simp add: bit_nat_def not_le)

lemma calloc_align_mask:
  assumes "sz \<noteq> 0"
  shows "\<exists>k\<le>64. calloc_align sz - 1 = mask k \<and> unat sz \<le> 2 ^ k \<and> (\<forall>j. unat sz \<le> 2 ^ j \<longrightarrow> k \<le> j)"
proof (cases "sz - 1 = 0")
  case True
  then have "sz = 1" by simp
  have "calloc_align sz - 1 = 0"
    by (rule bit_word_eqI) (simp add: bit_calloc_align_above True)
  with \<open>sz = 1\<close> show ?thesis
    by (intro exI [of _ 0]) simp
next
  case False
  define x where "x = sz - 1"
  define S where "S = {n. bit x n}"
  have "S \<subseteq> {..<64}" using bit_imp_le_length [of x] by (auto simp: S_def)
  then have fin: "finite S" by (rule finite_subset) simp
  from False have "S \<noteq> {}"
    by (auto simp: S_def x_def bit_eq_iff)
  define h where "h = Max S"
  have hS: "h \<in> S" unfolding h_def using fin \<open>S \<noteq> {}\<close> by (rule Max_in)
  have hmax: "n \<le> h" if "bit x n" for n
    unfolding h_def using fin that by (intro Max_ge) (simp_all add: S_def)
  have "bit x h" using hS by (simp add: S_def)
  then have h64: "h < 64" using bit_imp_le_length [of x h] by simp
  have m: "calloc_align sz - 1 = mask (Suc h)"
  proof (rule bit_word_eqI)
    fix n assume "n < LENGTH(64)"
    show "bit (calloc_align sz - 1) n \<longleftrightarrow> bit (mask (Suc h) :: u64) n"
    proof
      assume "bit (calloc_align sz - 1) n"
      then obtain m where "n \<le> m" "bit x m" by (auto simp: bit_calloc_align_above x_def)
      with hmax [of m] have "n < Suc h" by simp
      with \<open>n < LENGTH(64)\<close> show "bit (mask (Suc h) :: u64) n" by (simp add: bit_mask_iff)
    next
      assume "bit (mask (Suc h) :: u64) n"
      then have "n \<le> h" by (simp add: bit_mask_iff)
      with \<open>bit x h\<close> show "bit (calloc_align sz - 1) n"
        unfolding bit_calloc_align_above x_def by blast
    qed
  qed
  have "take_bit (Suc h) x = x"
  proof (rule bit_word_eqI)
    fix n assume "n < LENGTH(64)"
    show "bit (take_bit (Suc h) x) n \<longleftrightarrow> bit x n"
      using hmax [of n] by (auto simp: bit_take_bit_iff)
  qed
  then have "unat x = take_bit (Suc h) (unat x)"
    by (metis unsigned_take_bit_eq)
  then have "unat x < 2 ^ Suc h"
    by (metis take_bit_nat_less_exp)
  moreover have ux: "unat x = unat sz - 1"
    unfolding x_def using assms by (rule unat_minus_one)
  moreover have "unat sz \<noteq> 0" using assms by (simp add: unat_eq_0)
  ultimately have le: "unat sz \<le> 2 ^ Suc h" by simp
  have "bit (unat x) h" using \<open>bit x h\<close> h64 by (simp add: bit_unsigned_iff)
  then have "2 ^ h \<le> unat x" by (rule bit_nat_imp_ge)
  with ux \<open>unat sz \<noteq> 0\<close> have lower: "2 ^ h < unat sz" by simp
  have least: "Suc h \<le> j" if "unat sz \<le> 2 ^ j" for j
  proof -
    from lower that have "(2::nat) ^ h < 2 ^ j" by (rule less_le_trans)
    then have "h < j" by (simp add: power_strict_increasing_iff)
    then show ?thesis by simp
  qed
  from h64 m le least show ?thesis
    by (intro exI [of _ "Suc h"]) simp
qed

lemma and_not_mask_dvd: "2 ^ k dvd unat ((w::u64) AND NOT (mask k))"
proof -
  have "take_bit k (w AND NOT (mask k)) = 0"
    by (rule bit_word_eqI) (simp add: bit_take_bit_iff bit_and_iff bit_not_iff bit_mask_iff)
  then have "take_bit k (unat (w AND NOT (mask k))) = 0"
    by (metis unsigned_take_bit_eq unsigned_0)
  then show ?thesis by (simp add: take_bit_eq_0_iff)
qed

section \<open>One call of the allocator\<close>

lemma calloc_bytes_exact:
  assumes "sz \<noteq> 0" "nitems = 0 \<or> nitems = (nitems * sz) div sz"
  shows "unat (nitems * sz) = unat nitems * unat sz"
proof (cases "nitems = 0")
  case True
  then show ?thesis by simp
next
  case False
  with assms have "nitems = (nitems * sz) div sz" by simp
  then have "unat nitems = unat (nitems * sz) div unat sz"
    by (metis unat_div)
  then have "unat nitems * unat sz \<le> unat (nitems * sz)"
    by simp
  moreover have "unat (nitems * sz) \<le> unat nitems * unat sz"
    by (simp add: unat_word_ariths)
  ultimately show ?thesis by simp
qed

lemma sol_calloc_success:
  assumes "sol_calloc w nitems sz = (p, w')" "p \<noteq> NULL"
  shows "w' = p" "sz \<noteq> 0" "HEAP_START_ADDRESS + 8 \<le> p"
    "unat p + unat nitems * unat sz \<le> unat (cursor w)"
    "p = (cursor w - nitems * sz) AND NOT (calloc_align sz - 1)"
proof -
  from assms have ok: "sz \<noteq> 0" "nitems = 0 \<or> nitems = (nitems * sz) div sz"
    by (auto simp: sol_calloc_def Let_def split: if_splits)
  then have ex: "unat (nitems * sz) = unat nitems * unat sz"
    by (rule calloc_bytes_exact)
  define pos where "pos = (if cursor w < nitems * sz then 0 else cursor w - nitems * sz)"
  from assms ok have p: "p = pos AND NOT (calloc_align sz - 1)" "\<not> p < HEAP_START_ADDRESS + 8" "w' = p"
    by (auto simp: sol_calloc_def Let_def pos_def cursor_def split: if_splits)
  have nl: "\<not> cursor w < nitems * sz"
  proof
    assume "cursor w < nitems * sz"
    then have "p = 0" by (simp add: p pos_def)
    with assms(2) show False by (simp add: NULL_def)
  qed
  then have pos: "pos = cursor w - nitems * sz" by (simp add: pos_def)
  have "p \<le> pos" unfolding p by (rule word_and_le2)
  then have "unat p \<le> unat (cursor w) - unat (nitems * sz)"
    using nl by (simp add: pos word_le_nat_alt unat_sub not_less)
  moreover have "unat (nitems * sz) \<le> unat (cursor w)"
    using nl by (simp add: word_le_nat_alt not_less)
  ultimately show "unat p + unat nitems * unat sz \<le> unat (cursor w)"
    by (simp add: ex)
  show "w' = p" by fact
  show "sz \<noteq> 0" by fact
  show "HEAP_START_ADDRESS + 8 \<le> p" using p(2) by (simp add: not_less)
  show "p = (cursor w - nitems * sz) AND NOT (calloc_align sz - 1)" using p(1) pos by simp
qed

lemma sol_calloc_fail:
  assumes "sol_calloc w nitems sz = (p, w')" "p = NULL"
  shows "w' = w"
  using assms by (auto simp: sol_calloc_def Let_def NULL_def heap_consts split: if_splits)

lemma sol_calloc_aligned:
  assumes "sol_calloc w nitems sz = (p, w')" "p \<noteq> NULL"
  shows "\<exists>k. unat sz \<le> 2 ^ k \<and> (\<forall>j. unat sz \<le> 2 ^ j \<longrightarrow> k \<le> j) \<and> 2 ^ k dvd unat p"
proof -
  from sol_calloc_success [OF assms]
  have sz: "sz \<noteq> 0" and p: "p = (cursor w - nitems * sz) AND NOT (calloc_align sz - 1)"
    by simp_all
  from calloc_align_mask [OF sz] obtain k where
    k: "calloc_align sz - 1 = mask k" "unat sz \<le> 2 ^ k" "\<forall>j. unat sz \<le> 2 ^ j \<longrightarrow> k \<le> j"
    by blast
  have "2 ^ k dvd unat p" unfolding p k(1) by (rule and_not_mask_dvd)
  with k show ?thesis by blast
qed

lemma cursor_le: "cursor_ok w \<Longrightarrow> cursor w \<le> HEAP_START_ADDRESS + HEAP_LENGTH"
  by (simp add: cursor_ok_def cursor_def)

lemma sol_calloc_cursor_ok:
  assumes "cursor_ok w"
  shows "cursor_ok (snd (sol_calloc w nitems sz))"
proof (cases "fst (sol_calloc w nitems sz) = NULL")
  case True
  then have "snd (sol_calloc w nitems sz) = w"
    using sol_calloc_fail [of w nitems sz] by (cases "sol_calloc w nitems sz") simp
  with assms show ?thesis by simp
next
  case False
  obtain p w' where r: "sol_calloc w nitems sz = (p, w')" by (cases "sol_calloc w nitems sz")
  with False have "p \<noteq> NULL" by simp
  note s = sol_calloc_success [OF r this]
  have "unat p \<le> unat (cursor w)" using s(4) by simp
  then have "p \<le> cursor w" by (simp add: word_le_nat_alt)
  also have "\<dots> \<le> HEAP_START_ADDRESS + HEAP_LENGTH" using assms by (rule cursor_le)
  finally show ?thesis using s(1,3) r by (simp add: cursor_ok_def)
qed

lemma calloc_final_cursor_ok: "cursor_ok w \<Longrightarrow> cursor_ok (calloc_final w calls)"
  by (induction calls arbitrary: w) (auto simp: sol_calloc_cursor_ok)

section \<open>Runs of the allocator\<close>

lemma sol_calloc_aligned_for:
  assumes "sol_calloc w nitems sz = (p, w')" "p \<noteq> NULL"
  shows "aligned_for p sz"
  using sol_calloc_aligned [OF assms] unfolding aligned_for_def is_next_pow2_def by blast

lemma cursor_nonnull: "p \<noteq> NULL \<Longrightarrow> cursor p = p"
  by (simp add: cursor_def NULL_def)

lemma calloc_run_below:
  "(p, n, sz) \<in> set (successful (calloc_run w calls)) \<Longrightarrow>
     unat p + unat n * unat sz \<le> unat (cursor w) \<and> HEAP_START_ADDRESS + 8 \<le> p \<and> aligned_for p sz"
proof (induction calls arbitrary: w)
  case Nil
  then show ?case by (simp add: successful_def)
next
  case (Cons c calls)
  obtain n0 sz0 where c: "c = (n0, sz0)" by (cases c)
  obtain p0 w' where r: "sol_calloc w n0 sz0 = (p0, w')" by (cases "sol_calloc w n0 sz0")
  show ?case
  proof (cases "p0 = NULL")
    case True
    with r have "w' = w" by (rule sol_calloc_fail)
    with Cons.prems c r True have "(p, n, sz) \<in> set (successful (calloc_run w calls))"
      by (simp add: successful_def)
    then show ?thesis by (rule Cons.IH)
  next
    case False
    note s = sol_calloc_success [OF r False]
    from Cons.prems c r False s(1)
    consider "(p, n, sz) = (p0, n0, sz0)" | "(p, n, sz) \<in> set (successful (calloc_run p0 calls))"
      by (auto simp: successful_def)
    then show ?thesis
    proof cases
      case 1
      with s sol_calloc_aligned_for [OF r False] show ?thesis by simp
    next
      case 2
      from Cons.IH [OF 2] have "unat p + unat n * unat sz \<le> unat p0"
        and rest: "HEAP_START_ADDRESS + 8 \<le> p \<and> aligned_for p sz"
        using False by (simp_all add: cursor_nonnull)
      with s(4) show ?thesis by simp
    qed
  qed
qed

lemma calloc_run_disjoint:
  "sorted_wrt (\<lambda>a b. alloc_range a \<inter> alloc_range b = {}) (successful (calloc_run w calls))"
proof (induction calls arbitrary: w)
  case Nil
  then show ?case by (simp add: successful_def)
next
  case (Cons c calls)
  obtain n0 sz0 where c: "c = (n0, sz0)" by (cases c)
  obtain p0 w' where r: "sol_calloc w n0 sz0 = (p0, w')" by (cases "sol_calloc w n0 sz0")
  show ?case
  proof (cases "p0 = NULL")
    case True
    with r have "w' = w" by (rule sol_calloc_fail)
    with c r True have "successful (calloc_run w (c # calls)) = successful (calloc_run w calls)"
      by (simp add: successful_def)
    with Cons.IH show ?thesis by simp
  next
    case False
    note s = sol_calloc_success [OF r False]
    from c r False s(1)
    have eq: "successful (calloc_run w (c # calls)) = (p0, n0, sz0) # successful (calloc_run p0 calls)"
      by (simp add: successful_def)
    have "alloc_range (p0, n0, sz0) \<inter> alloc_range b = {}"
      if "b \<in> set (successful (calloc_run p0 calls))" for b
    proof -
      obtain p n sz where b: "b = (p, n, sz)" by (cases b)
      with that calloc_run_below [of p n sz p0 calls]
      have "unat p + unat n * unat sz \<le> unat p0"
        using False by (simp add: cursor_nonnull)
      then show ?thesis by (auto simp: alloc_range_def b)
    qed
    with Cons.IH [of p0] show ?thesis by (simp add: eq)
  qed
qed

lemma calloc_zero_items:
  assumes "1 \<le> sz" "sz \<le> 32768"
  shows "sol_calloc 0 0 sz = (HEAP_START_ADDRESS + HEAP_LENGTH, HEAP_START_ADDRESS + HEAP_LENGTH)"
proof -
  from assms(1) have sz: "sz \<noteq> 0" by auto
  from calloc_align_mask [OF sz] obtain k where
    k: "calloc_align sz - 1 = mask k" "\<forall>j. unat sz \<le> 2 ^ j \<longrightarrow> k \<le> j"
    by blast
  from assms(2) have "unat sz \<le> 2 ^ 15" by (simp add: word_le_nat_alt)
  with k(2) have k15: "k \<le> 15" by blast
  have "push_bit 15 v AND NOT (mask k) = push_bit 15 v" for v :: u64
    using k15
    by (intro bit_word_eqI) (auto simp: bit_and_iff bit_not_iff bit_mask_iff bit_push_bit_iff)
  from this [of "0x60001"] have "(0x300008000::u64) AND NOT (mask k) = 0x300008000"
    by (simp add: push_bit_eq_mult)
  with sz k(1) show ?thesis
    by (simp add: sol_calloc_def Let_def heap_consts)
qed

section \<open>The loops of the byte primitives\<close>

lemma memcmp_loop_zero_iff:
  "memcmp_loop m s1 s2 i n = 0 \<longleftrightarrow>
     (\<forall>j. i \<le> j \<and> j < n \<longrightarrow> m (s1 + word_of_int j) = m (s2 + word_of_int j))"
proof (induction m s1 s2 i n rule: memcmp_loop.induct)
  case (1 m s1 s2 i n)
  show ?case
  proof (cases "i < n")
    case False
    then show ?thesis by (auto simp: memcmp_loop.simps [of m s1 s2 i n])
  next
    case True
    show ?thesis
    proof (cases "m (s1 + word_of_int i) = m (s2 + word_of_int i)")
      case False
      then have "m (s1 + word_of_int i) - m (s2 + word_of_int i) \<noteq> 0" by simp
      then have "memcmp_loop m s1 s2 i n \<noteq> 0"
        using True by (simp add: memcmp_loop.simps [of m s1 s2 i n] Let_def uint_0_iff)
      moreover have "\<not> (\<forall>j. i \<le> j \<and> j < n \<longrightarrow> m (s1 + word_of_int j) = m (s2 + word_of_int j))"
        using True False by (intro notI) auto
      ultimately show ?thesis by simp
    next
      case eq: True
      then have "memcmp_loop m s1 s2 i n = memcmp_loop m s1 s2 (i + 1) n"
        using True by (simp add: memcmp_loop.simps [of m s1 s2 i n])
      also have "\<dots> = 0 \<longleftrightarrow>
          (\<forall>j. i + 1 \<le> j \<and> j < n \<longrightarrow> m (s1 + word_of_int j) = m (s2 + word_of_int j))"
        using True eq by (intro "1.IH") simp_all
      also have "\<dots> \<longleftrightarrow> (\<forall>j. i \<le> j \<and> j < n \<longrightarrow> m (s1 + word_of_int j) = m (s2 + word_of_int j))"
      proof -
        have "i \<le> j \<longleftrightarrow> j = i \<or> i + 1 \<le> j" for j by auto
        with eq show ?thesis by auto
      qed
      finally show ?thesis .
    qed
  qed
qed

lemma memcmp_loop_first_diff:
  assumes "i \<le> k" "k < n"
    and "m (s1 + word_of_int k) \<noteq> m (s2 + word_of_int k)"
    and "\<forall>j. i \<le> j \<and> j < k \<longrightarrow> m (s1 + word_of_int j) = m (s2 + word_of_int j)"
  shows "memcmp_loop m s1 s2 i n = uint (m (s1 + word_of_int k) - m (s2 + word_of_int k))"
  using assms
proof (induction m s1 s2 i n rule: memcmp_loop.induct)
  case (1 m s1 s2 i n)
  from "1.prems" have "i < n" by simp
  show ?case
  proof (cases "i = k")
    case True
    with "1.prems" \<open>i < n\<close> show ?thesis
      by (simp add: memcmp_loop.simps [of m s1 s2 k n])
  next
    case False
    with "1.prems" have lt: "i < k" by simp
    with "1.prems" have eq: "m (s1 + word_of_int i) = m (s2 + word_of_int i)" by simp
    then have "memcmp_loop m s1 s2 i n = memcmp_loop m s1 s2 (i + 1) n"
      using \<open>i < n\<close> by (simp add: memcmp_loop.simps [of m s1 s2 i n])
    also have "\<dots> = uint (m (s1 + word_of_int k) - m (s2 + word_of_int k))"
      using \<open>i < n\<close> eq lt "1.prems" by (intro "1.IH") simp_all
    finally show ?thesis .
  qed
qed

lemma strlen_loop_first_zero:
  assumes "m (s + of_nat k) = 0" "\<forall>i<k. m (s + of_nat i) \<noteq> 0"
  shows "strlen_loop m ref s = Some (s - ref + of_nat k)"
  using assms
proof (induction k arbitrary: s rule: less_induct)
  case (less k)
  have nz: "m (s + of_nat i) \<noteq> 0" if "i < k" for i
    using less.prems(2) that by blast
  show ?case
  proof (cases "k < 4")
    case True
    then consider "k = 0" | "k = 1" | "k = 2" | "k = 3" by linarith
    then show ?thesis
    proof cases
      case 1
      with less.prems show ?thesis by (subst strlen_loop.simps) simp
    next
      case 2
      with less.prems(1) nz [of 0] show ?thesis by (subst strlen_loop.simps) simp
    next
      case 3
      with less.prems(1) nz [of 0] nz [of 1] show ?thesis by (subst strlen_loop.simps) simp
    next
      case 4
      with less.prems(1) nz [of 0] nz [of 1] nz [of 2] show ?thesis
        by (subst strlen_loop.simps) simp
    qed
  next
    case False
    then have k4: "4 \<le> k" by simp
    with nz [of 0] nz [of 1] nz [of 2] nz [of 3]
    have nz4: "m s \<noteq> 0" "m (s + 1) \<noteq> 0" "m (s + 2) \<noteq> 0" "m (s + 3) \<noteq> 0" by simp_all
    have shift: "s + 4 + of_nat j = s + of_nat (j + 4)" for j by simp
    have "strlen_loop m ref s = strlen_loop m ref (s + 4)"
      using nz4 by (subst strlen_loop.simps) simp
    also have "\<dots> = Some (s + 4 - ref + of_nat (k - 4))"
    proof (rule less.IH)
      show "k - 4 < k" using k4 by simp
      show "m (s + 4 + of_nat (k - 4)) = 0"
        using less.prems(1) k4 by (simp add: shift)
      show "\<forall>i<k - 4. m (s + 4 + of_nat i) \<noteq> 0"
      proof (intro allI impI)
        fix i assume "i < k - 4"
        then have "i + 4 < k" by simp
        with less.prems(2) have "m (s + of_nat (i + 4)) \<noteq> 0" by blast
        then show "m (s + 4 + of_nat i) \<noteq> 0" unfolding shift .
      qed
    qed
    also have "s + 4 - ref + of_nat (k - 4) = s - ref + of_nat k"
    proof -
      have "of_nat k = (of_nat (k - 4 + 4) :: u64)" using k4 by simp
      then show ?thesis by (simp del: of_nat_add add: of_nat_add [of "k - 4" 4] )
    qed
    finally show ?thesis .
  qed
qed

lemma holds_bytes_nth:
  assumes "holds_bytes m s X" "i < length X"
  shows "m (s + of_nat i) = X ! i"
proof -
  from assms(1) have "map (\<lambda>i. m (s + of_nat i)) [0..<length X] ! i = X ! i"
    by (simp add: holds_bytes_def peek_bytes_def)
  with assms(2) show ?thesis by simp
qed

lemma first_zero_props:
  assumes "0 \<in> set X"
  shows "first_zero X < length X" "X ! first_zero X = 0" "\<And>i. i < first_zero X \<Longrightarrow> X ! i \<noteq> 0"
proof -
  let ?P = "\<lambda>b::u8. b \<noteq> 0"
  have "takeWhile ?P X \<noteq> X" using assms by (auto simp: takeWhile_eq_all_conv)
  moreover have "takeWhile ?P X = take (first_zero X) X"
    unfolding first_zero_def by (rule takeWhile_eq_take)
  moreover have "first_zero X \<le> length X"
    unfolding first_zero_def by (rule length_takeWhile_le)
  ultimately show lt: "first_zero X < length X"
    by (cases "first_zero X = length X") simp_all
  then have "\<not> ?P (X ! first_zero X)"
    unfolding first_zero_def by (rule nth_length_takeWhile)
  then show "X ! first_zero X = 0" by simp
  fix i assume i: "i < first_zero X"
  then have "takeWhile ?P X ! i \<in> set (takeWhile ?P X)"
    by (simp add: first_zero_def)
  then have "?P (takeWhile ?P X ! i)" by (auto dest: set_takeWhileD)
  moreover have "takeWhile ?P X ! i = X ! i"
    using i unfolding first_zero_def by (rule takeWhile_nth)
  ultimately show "X ! i \<noteq> 0" by simp
qed

lemma first_zero_in_range:
  assumes "holds_bytes m s X" "0 \<in> set X"
  shows "first_zero X < 2 ^ 64"
proof (rule ccontr)
  assume "\<not> first_zero X < 2 ^ 64"
  then have ge: "2 ^ 64 \<le> first_zero X" by simp
  define j where "j = first_zero X - 2 ^ 64"
  note fz = first_zero_props [OF assms(2)]
  from ge have k: "first_zero X = j + 2 ^ 64" and jlt: "j < first_zero X"
    by (simp_all add: j_def)
  have "(of_nat (first_zero X) :: u64) = of_nat j + of_nat (2 ^ 64)"
    by (subst k) (rule of_nat_add)
  also have "(of_nat (2 ^ 64) :: u64) = 0" by simp
  finally have same: "(of_nat (first_zero X) :: u64) = of_nat j" by simp
  have "m (s + of_nat j) = X ! j"
    using assms(1) jlt fz(1) by (intro holds_bytes_nth) simp_all
  moreover have "m (s + of_nat (first_zero X)) = X ! first_zero X"
    using assms(1) fz(1) by (rule holds_bytes_nth)
  ultimately have "X ! j = 0" using fz(2) same by simp
  with fz(3) [OF jlt] show False by simp
qed

section \<open>The claims\<close>

text \<open>
  Claim C1. For regions with \<open>dst < src\<close>, also overlapping ones,
  \<^verbatim>\<open>sol_memmove(dst, src, len)\<close> should leave in \<open>dst[0..len)\<close> the bytes that
  \<open>src[0..len)\<close> held before the call; on the buffer \<^verbatim>\<open>"abcdefgh"\<close>,
  \<^verbatim>\<open>sol_memmove(buf + 0, buf + 2, 6)\<close> should give \<^verbatim>\<open>"cdefghgh"\<close>. The code
  does not do that: after the forward copy the descending loop runs as well and reads the
  bytes the forward copy has just written, so the buffer ends as \<^verbatim>\<open>"ghghghgh"\<close>.
\<close>

theorem sol_memmove_overlap_down_clobbers:
  "peek_bytes
     (sol_memmove (poke_bytes (\<lambda>a. 0) 0x1000 (bytes_of ''abcdefgh'')) 0x1000 (0x1000 + 2) 6)
     0x1000 8 = bytes_of ''ghghghgh'' \<and>
   bytes_of ''ghghghgh'' \<noteq> bytes_of ''cdefghgh''"
  by code_simp

text \<open>
  Claim C2. The claim says that a call in which the cursor is smaller than the
  requested byte count returns null and sets the cursor word at \<open>HEAP_START_ADDRESS\<close>
  to 0. The first part holds and the second does not: after \<^verbatim>\<open>calloc(1, 8)\<close> on a
  fresh heap the cursor word is not 0, and the oversized request
  \<^verbatim>\<open>calloc(0x400000000, 1)\<close> leaves it as it is.
\<close>

theorem sol_calloc_saturation_keeps_cursor_counterexample:
  "\<not> (cursor (snd (sol_calloc 0 1 8)) < 0x400000000 * 1 \<longrightarrow>
        fst (sol_calloc (snd (sol_calloc 0 1 8)) 0x400000000 1) = NULL \<and>
        snd (sol_calloc (snd (sol_calloc 0 1 8)) 0x400000000 1) = 0)"
  by (simp add: sol_calloc_def calloc_align_def Let_def heap_consts cursor_def NULL_def)

text \<open>
  Claim C2, as amended. For every call in which the (possibly lazily initialised) cursor
  is smaller than the requested byte count \<open>nitems * sz\<close>, \<^verbatim>\<open>sol_calloc\<close> returns
  null and leaves the cursor word at \<open>HEAP_START_ADDRESS\<close> unchanged: only the local
  copy of the cursor is set to 0, which makes the bounds check fail.
\<close>

theorem sol_calloc_saturation_keeps_cursor:
  "cursor w < nitems * sz \<Longrightarrow> sol_calloc w nitems sz = (NULL, w)"
  by (auto simp: sol_calloc_def Let_def cursor_def NULL_def heap_consts)

theorem sol_calloc_saturation_keeps_cursor_witness:
  "cursor 0x300007FF8 < 0x400000000 * 1 \<and> sol_calloc 0x300007FF8 0x400000000 1 = (NULL, 0x300007FF8)"
  using sol_calloc_saturation_keeps_cursor [of "0x300007FF8" "0x400000000" 1]
  by (simp add: cursor_def)

text \<open>
  Claim C3. Every call of \<^verbatim>\<open>sol_calloc\<close> that returns null leaves the cursor word
  at \<open>HEAP_START_ADDRESS\<close> exactly as it was before the call, whatever the reason of
  the failure (zero size, overflow of the product, saturation, bounds check).
\<close>

theorem sol_calloc_null_keeps_cursor:
  "fst (sol_calloc w nitems sz) = NULL \<Longrightarrow> snd (sol_calloc w nitems sz) = w"
  by (cases "sol_calloc w nitems sz") (simp add: sol_calloc_fail)

theorem sol_calloc_null_keeps_cursor_witness:
  "fst (sol_calloc 0x300007FF8 5 0) = NULL \<and> snd (sol_calloc 0x300007FF8 5 0) = 0x300007FF8"
  using sol_calloc_null_keeps_cursor [of "0x300007FF8" 5 0]
  by (simp add: sol_calloc_def)

text \<open>
  Claim C4. For all \<open>nitems\<close> and \<open>sz\<close>, \<^verbatim>\<open>sol_calloc\<close> returns null whenever
  \<open>sz = 0\<close>, and whenever \<open>sz \<noteq> 0\<close> and \<open>nitems \<noteq> bytes div sz\<close> where
  \<open>bytes\<close> is the 64-bit product \<open>nitems * sz\<close>, which may wrap; in particular
  \<^verbatim>\<open>calloc(0xFFFFFFFFFFFFFFFF, 2)\<close> returns null. This holds for every value of the
  cursor word.
\<close>

theorem sol_calloc_overflow_null:
  "(sz = 0 \<longrightarrow> fst (sol_calloc w nitems sz) = NULL) \<and>
   (sz \<noteq> 0 \<and> nitems \<noteq> (nitems * sz) div sz \<longrightarrow> fst (sol_calloc w nitems sz) = NULL) \<and>
   fst (sol_calloc w 0xFFFFFFFFFFFFFFFF 2) = NULL"
  by (auto simp: sol_calloc_def Let_def)

theorem sol_calloc_overflow_null_witness:
  "(3::u64) \<noteq> 0 \<and> (0x8000000000000000::u64) \<noteq> (0x8000000000000000 * 3) div 3 \<and>
   fst (sol_calloc 0 0x8000000000000000 3) = NULL \<and> fst (sol_calloc 0 7 0) = NULL"
  using sol_calloc_overflow_null [of 3 0 "0x8000000000000000"] sol_calloc_overflow_null [of 0 0 7]
  by simp

text \<open>
  Claim C5. Every successful call \<^verbatim>\<open>sol_calloc(nitems, sz)\<close> returns an address
  other than null that is a multiple of the smallest power of two that is at least
  \<open>sz\<close> and that is at least \<open>HEAP_START_ADDRESS + 8\<close>; on a fresh heap (cursor
  word 0), \<^verbatim>\<open>calloc(1, 8)\<close> returns an address \<open>A\<close> with
  \<open>HEAP_START_ADDRESS + 8 \<le> A \<le> HEAP_START_ADDRESS + HEAP_LENGTH - 8\<close> and
  \<open>A mod 8 = 0\<close>.
\<close>

theorem sol_calloc_success_aligned:
  "(fst (sol_calloc w nitems sz) \<noteq> NULL \<longrightarrow>
      aligned_for (fst (sol_calloc w nitems sz)) sz \<and>
      HEAP_START_ADDRESS + 8 \<le> fst (sol_calloc w nitems sz)) \<and>
   fst (sol_calloc 0 1 8) \<noteq> NULL \<and>
   HEAP_START_ADDRESS + 8 \<le> fst (sol_calloc 0 1 8) \<and>
   fst (sol_calloc 0 1 8) \<le> HEAP_START_ADDRESS + HEAP_LENGTH - 8 \<and>
   unat (fst (sol_calloc 0 1 8)) mod 8 = 0"
proof -
  have "aligned_for (fst (sol_calloc w nitems sz)) sz \<and>
      HEAP_START_ADDRESS + 8 \<le> fst (sol_calloc w nitems sz)"
    if "fst (sol_calloc w nitems sz) \<noteq> NULL"
  proof -
    obtain p w' where r: "sol_calloc w nitems sz = (p, w')" by (cases "sol_calloc w nitems sz")
    with that have "p \<noteq> NULL" by simp
    with r sol_calloc_aligned_for [OF r] sol_calloc_success(3) [OF r] show ?thesis by simp
  qed
  moreover have "sol_calloc 0 1 8 = (0x300007FF8, 0x300007FF8)"
    by (simp add: sol_calloc_def calloc_align_def Let_def heap_consts)
  ultimately show ?thesis
    by (simp add: NULL_def HEAP_START_ADDRESS_def HEAP_LENGTH_def)
qed

theorem sol_calloc_success_aligned_witness:
  "fst (sol_calloc 0x300007FF8 3 5) \<noteq> NULL \<and>
   aligned_for (fst (sol_calloc 0x300007FF8 3 5)) 5 \<and>
   HEAP_START_ADDRESS + 8 \<le> fst (sol_calloc 0x300007FF8 3 5)"
proof -
  have "sol_calloc 0x300007FF8 3 5 = (0x300007FE8, 0x300007FE8)"
    by (simp add: sol_calloc_def calloc_align_def Let_def heap_consts)
  then have "fst (sol_calloc 0x300007FF8 3 5) \<noteq> NULL" by (simp add: NULL_def)
  with sol_calloc_success_aligned [of "0x300007FF8" 3 5] show ?thesis by blast
qed

text \<open>
  Claim C6. The stored cursor word, when it is not 0, lies between
  \<open>HEAP_START_ADDRESS + 8\<close> and \<open>HEAP_START_ADDRESS + HEAP_LENGTH\<close>: every call of
  \<^verbatim>\<open>sol_calloc\<close> preserves this predicate, and it holds after every sequence of
  calls that starts from a fresh heap.
\<close>

theorem sol_calloc_cursor_invariant:
  "(cursor_ok w \<longrightarrow> cursor_ok (snd (sol_calloc w nitems sz))) \<and>
   cursor_ok (calloc_final 0 calls)"
  using sol_calloc_cursor_ok [of w nitems sz] calloc_final_cursor_ok [of 0 calls]
  by (simp add: cursor_ok_def)

theorem sol_calloc_cursor_invariant_witness:
  "cursor_ok 0x300007FF8 \<and> cursor_ok (snd (sol_calloc 0x300007FF8 2 16)) \<and>
   snd (sol_calloc 0x300007FF8 2 16) = 0x300007FD0 \<and>
   calloc_final 0 [(1, 8), (2, 16)] = 0x300007FD0 \<and>
   cursor_ok (calloc_final 0 [(1, 8), (2, 16)])"
proof -
  have "cursor_ok 0x300007FF8"
    by (simp add: cursor_ok_def HEAP_START_ADDRESS_def HEAP_LENGTH_def)
  moreover have "snd (sol_calloc 0x300007FF8 2 16) = 0x300007FD0"
    by (simp add: sol_calloc_def calloc_align_def Let_def heap_consts)
  moreover have "calloc_final 0 [(1, 8), (2, 16)] = 0x300007FD0"
    by (simp add: sol_calloc_def calloc_align_def Let_def heap_consts)
  ultimately show ?thesis
    using sol_calloc_cursor_invariant [of "0x300007FF8" 2 16 "[(1, 8), (2, 16)]"] by simp
qed

text \<open>
  Claim C7. After any sequence of calls of \<^verbatim>\<open>sol_calloc\<close> from a fresh heap, the
  byte ranges \<open>[p, p + nitems * sz)\<close> of two different successful allocations do not
  intersect, and every pointer returned is aligned to the smallest power of two that is
  at least the \<open>sz\<close> of its call. Calls that fail may occur anywhere in the sequence.
\<close>

theorem calloc_run_disjoint_aligned:
  "(\<forall>i j. i < j \<and> j < length (successful (calloc_run 0 calls)) \<longrightarrow>
      alloc_range (successful (calloc_run 0 calls) ! i) \<inter>
      alloc_range (successful (calloc_run 0 calls) ! j) = {}) \<and>
   (\<forall>(p, nitems, sz) \<in> set (successful (calloc_run 0 calls)). aligned_for p sz)"
proof -
  have "\<forall>i j. i < j \<and> j < length (successful (calloc_run 0 calls)) \<longrightarrow>
      alloc_range (successful (calloc_run 0 calls) ! i) \<inter>
      alloc_range (successful (calloc_run 0 calls) ! j) = {}"
    using calloc_run_disjoint [of 0 calls] by (simp add: sorted_wrt_iff_nth_less)
  moreover have "\<forall>(p, nitems, sz) \<in> set (successful (calloc_run 0 calls)). aligned_for p sz"
    using calloc_run_below [of _ _ _ 0 calls] by blast
  ultimately show ?thesis by blast
qed

theorem calloc_run_disjoint_aligned_witness:
  "successful (calloc_run 0 [(1, 8), (0xFFFFFFFFFFFFFFFF, 2), (3, 16)]) =
     [(0x300007FF8, 1, 8), (0x300007FC0, 3, 16)] \<and>
   alloc_range (0x300007FF8, 1, 8) \<inter> alloc_range (0x300007FC0, 3, 16) = {} \<and>
   aligned_for 0x300007FF8 8 \<and> aligned_for 0x300007FC0 16"
proof -
  let ?calls = "[(1, 8), (0xFFFFFFFFFFFFFFFF, 2), (3, 16)] :: (u64 \<times> u64) list"
  have run: "successful (calloc_run 0 ?calls) = [(0x300007FF8, 1, 8), (0x300007FC0, 3, 16)]"
    by (simp add: successful_def sol_calloc_def calloc_align_def Let_def heap_consts NULL_def)
  note t = calloc_run_disjoint_aligned [of ?calls, unfolded run]
  from t have "(0::nat) < 1 \<and> 1 < length [(0x300007FF8, 1, 8), (0x300007FC0, 3, 16) :: u64 \<times> u64 \<times> u64] \<longrightarrow>
      alloc_range ([(0x300007FF8, 1, 8), (0x300007FC0, 3, 16)] ! 0) \<inter>
      alloc_range ([(0x300007FF8, 1, 8), (0x300007FC0, 3, 16)] ! 1) = {}"
    by blast
  then have "alloc_range (0x300007FF8, 1, 8) \<inter> alloc_range (0x300007FC0, 3, 16) = {}"
    by simp
  moreover from t have "aligned_for 0x300007FF8 8 \<and> aligned_for 0x300007FC0 16"
    by simp
  ultimately show ?thesis using run by simp
qed

text \<open>
  Claim C8. For pointers \<open>s1\<close> and \<open>s2\<close> other than null and \<open>n \<ge> 0\<close>,
  \<^verbatim>\<open>sol_memcmp(s1, s2, n)\<close> returns 0 if and only if the first \<open>n\<close> bytes are
  equal; otherwise, with \<open>k\<close> the first index where they differ, it returns the
  difference of the two bytes at \<open>k\<close> taken as 8-bit unsigned values, which is not 0.
  When one of the pointers is null the result is not 0.
\<close>

theorem sol_memcmp_first_difference:
  "(s1 \<noteq> 0 \<and> s2 \<noteq> 0 \<and> 0 \<le> n \<longrightarrow>
      (sol_memcmp m s1 s2 n = 0 \<longleftrightarrow>
         (\<forall>i. 0 \<le> i \<and> i < n \<longrightarrow> m (s1 + word_of_int i) = m (s2 + word_of_int i))) \<and>
      (0 \<le> k \<and> k < n \<and> m (s1 + word_of_int k) \<noteq> m (s2 + word_of_int k) \<and>
       (\<forall>j. 0 \<le> j \<and> j < k \<longrightarrow> m (s1 + word_of_int j) = m (s2 + word_of_int j)) \<longrightarrow>
         sol_memcmp m s1 s2 n = uint (m (s1 + word_of_int k) - m (s2 + word_of_int k)) \<and>
         sol_memcmp m s1 s2 n \<noteq> 0)) \<and>
   (s1 = 0 \<or> s2 = 0 \<longrightarrow> sol_memcmp m s1 s2 n \<noteq> 0)"
proof -
  have a: "sol_memcmp m s1 s2 n = 0 \<longleftrightarrow>
         (\<forall>i. 0 \<le> i \<and> i < n \<longrightarrow> m (s1 + word_of_int i) = m (s2 + word_of_int i))"
    if "s1 \<noteq> 0" "s2 \<noteq> 0"
    using that by (simp add: sol_memcmp_def memcmp_loop_zero_iff)
  have b: "sol_memcmp m s1 s2 n = uint (m (s1 + word_of_int k) - m (s2 + word_of_int k)) \<and>
         sol_memcmp m s1 s2 n \<noteq> 0"
    if "s1 \<noteq> 0" "s2 \<noteq> 0" and k: "0 \<le> k" "k < n"
      "m (s1 + word_of_int k) \<noteq> m (s2 + word_of_int k)"
      "\<forall>j. 0 \<le> j \<and> j < k \<longrightarrow> m (s1 + word_of_int j) = m (s2 + word_of_int j)"
  proof -
    have "memcmp_loop m s1 s2 0 n = uint (m (s1 + word_of_int k) - m (s2 + word_of_int k))"
      using k by (rule memcmp_loop_first_diff)
    moreover have "m (s1 + word_of_int k) - m (s2 + word_of_int k) \<noteq> 0"
      using k(3) by simp
    ultimately show ?thesis using that(1,2) by (simp add: sol_memcmp_def uint_0_iff)
  qed
  have c: "sol_memcmp m s1 s2 n \<noteq> 0" if "s1 = 0 \<or> s2 = 0"
    using that by (auto simp: sol_memcmp_def)
  from a b c show ?thesis by blast
qed

theorem sol_memcmp_first_difference_witness:
  "sol_memcmp (poke_bytes (\<lambda>a. 0) 0x1000 (bytes_of ''abcdabxd'')) 0x1000 0x1004 4 = 235 \<and>
   sol_memcmp (poke_bytes (\<lambda>a. 0) 0x1000 (bytes_of ''abcdabxd'')) 0 0x1004 4 \<noteq> 0"
proof -
  let ?m = "poke_bytes (\<lambda>a. 0) 0x1000 (bytes_of ''abcdabxd'')"
  have v: "?m 0x1000 = 97" "?m 0x1001 = 98" "?m 0x1002 = 99" "?m 0x1004 = 97" "?m 0x1005 = 98" "?m 0x1006 = 120"
    by (simp_all add: bytes_of_def)
  have eq: "\<forall>j::int. 0 \<le> j \<and> j < 2 \<longrightarrow> ?m (0x1000 + word_of_int j) = ?m (0x1004 + word_of_int j)"
  proof (intro allI impI)
    fix j :: int assume "0 \<le> j \<and> j < 2"
    then have "j = 0 \<or> j = 1" by auto
    then show "?m (0x1000 + word_of_int j) = ?m (0x1004 + word_of_int j)"
      using v by auto
  qed
  have ne: "?m (0x1000 + word_of_int 2) \<noteq> ?m (0x1004 + word_of_int 2)"
    using v by simp
  have "sol_memcmp ?m 0x1000 0x1004 4 = uint (?m (0x1000 + word_of_int 2) - ?m (0x1004 + word_of_int 2))"
    using sol_memcmp_first_difference [of "0x1000" "0x1004" 4 ?m 2] eq ne by simp
  also have "\<dots> = 235" using v by simp
  finally have "sol_memcmp ?m 0x1000 0x1004 4 = 235" .
  moreover have "sol_memcmp ?m 0 0x1004 4 \<noteq> 0"
    using sol_memcmp_first_difference [of 0 "0x1004" 4 ?m 0] by simp
  ultimately show ?thesis by simp
qed

text \<open>
  Claim C9. When the memory holds, from the address \<open>s\<close> on, a byte sequence \<open>X\<close>
  with at least one zero byte, \<^verbatim>\<open>sol_strlen(s)\<close> returns, and what it returns is the
  index of the first zero byte of \<open>X\<close>, whatever that index is modulo 4;
  \<^verbatim>\<open>sol_strlen\<close> of the null pointer returns 0.
\<close>

theorem sol_strlen_first_zero:
  "(s \<noteq> 0 \<and> holds_bytes m s X \<and> 0 \<in> set X \<longrightarrow>
      (\<exists>r. sol_strlen m s = Some r \<and> unat r = first_zero X)) \<and>
   sol_strlen m 0 = Some 0"
proof -
  have "\<exists>r. sol_strlen m s = Some r \<and> unat r = first_zero X"
    if s: "s \<noteq> 0" and h: "holds_bytes m s X" and z: "0 \<in> set X"
  proof -
    note fz = first_zero_props [OF z]
    have "m (s + of_nat (first_zero X)) = 0"
      using holds_bytes_nth [OF h fz(1)] fz(2) by simp
    moreover have "\<forall>i<first_zero X. m (s + of_nat i) \<noteq> 0"
    proof (intro allI impI)
      fix i assume i: "i < first_zero X"
      with fz(1) have "i < length X" by simp
      with h have "m (s + of_nat i) = X ! i" by (rule holds_bytes_nth)
      with fz(3) [OF i] show "m (s + of_nat i) \<noteq> 0" by simp
    qed
    ultimately have "strlen_loop m s s = Some (s - s + of_nat (first_zero X))"
      by (rule strlen_loop_first_zero)
    with s have "sol_strlen m s = Some (of_nat (first_zero X))"
      by (simp add: sol_strlen_def)
    moreover have "unat (of_nat (first_zero X) :: u64) = first_zero X"
      using first_zero_in_range [OF h z] by (simp add: unat_of_nat)
    ultimately show ?thesis by blast
  qed
  moreover have "sol_strlen m 0 = Some 0" by (simp add: sol_strlen_def)
  ultimately show ?thesis by blast
qed

theorem sol_strlen_first_zero_witness:
  "sol_strlen (poke_bytes (\<lambda>a. 1) 0x1000 (bytes_of ''abcde'' @ [0, 7])) 0x1000 = Some 5 \<and>
   first_zero (bytes_of ''abcde'' @ [0, 7]) = 5"
proof -
  let ?X = "bytes_of ''abcde'' @ [0, 7]"
  let ?m = "poke_bytes (\<lambda>a. 1) 0x1000 ?X"
  have h: "(0x1000::u64) \<noteq> 0 \<and> holds_bytes ?m 0x1000 ?X \<and> 0 \<in> set ?X"
    by code_simp
  have f: "first_zero ?X = 5" by code_simp
  from sol_strlen_first_zero [of "0x1000" ?m ?X] h
  obtain r where r: "sol_strlen ?m 0x1000 = Some r" "unat r = first_zero ?X" by blast
  from r(2) f have "unat r = unat (5::u64)" by simp
  then have "r = 5" by (simp only: word_unat_eq_iff)
  with r(1) f show ?thesis by simp
qed

text \<open>
  Claim C10. For every \<open>sz\<close> from 1 to 32768, on a fresh heap (cursor word 0) the
  call \<^verbatim>\<open>sol_calloc(0, sz)\<close> succeeds: it returns the address
  \<open>HEAP_START_ADDRESS + HEAP_LENGTH\<close>, which is not null and is the first address after
  the heap region, and stores it in the cursor word.
\<close>

theorem sol_calloc_zero_items_fresh:
  "1 \<le> sz \<and> sz \<le> 32768 \<Longrightarrow>
     sol_calloc 0 0 sz = (HEAP_START_ADDRESS + HEAP_LENGTH, HEAP_START_ADDRESS + HEAP_LENGTH) \<and>
     HEAP_START_ADDRESS + HEAP_LENGTH \<noteq> NULL"
  using calloc_zero_items [of sz] by (simp add: heap_consts NULL_def)

theorem sol_calloc_zero_items_fresh_witness:
  "(1::u64) \<le> 24 \<and> (24::u64) \<le> 32768 \<and>
   sol_calloc 0 0 24 = (HEAP_START_ADDRESS + HEAP_LENGTH, HEAP_START_ADDRESS + HEAP_LENGTH) \<and>
   HEAP_START_ADDRESS + HEAP_LENGTH \<noteq> NULL"
  using sol_calloc_zero_items_fresh [of 24] by simp

end
